theory Spec2Isabelle
  imports Main "HOL-Library.Word"
begin

unbundle bit_operations_syntax

section \<open>Buffers, cursors and the decoder\<close>

text \<open>
  A buffer of code units of type \<open>T\<close> is the list of its units; a pointer into it is an
  index, and the null pointer of a search result is \<open>None\<close>. Every buffer is null
  terminated: the terminator follows the last listed unit, so reading at or after the
  end of the list gives the unit \<open>0\<close> (a listed \<open>0\<close> terminates the buffer earlier).
  A decoded code point is a \<open>char32_t\<close>, a length in units a \<open>size_t\<close> (64 bits; its
  default argument \<open>-1\<close> is the largest value).
\<close>

type_synonym char32 = "32 word"
type_synonym size_t = "64 word"

definition unit_at :: "'u::zero list \<Rightarrow> nat \<Rightarrow> 'u" where
  "unit_at buf p = (if p < length buf then buf ! p else 0)"

text \<open>
  An encoding tells, for the units from a cursor on (the first of them not the
  terminator), the code point they start with and how many units follow its leading
  unit.
\<close>

type_synonym 'u decoder = "'u list \<Rightarrow> char32 \<times> nat"

text \<open>
  Modelled from the spec: \<open>nextchar\<close>, the decoder the library is built on, is not part
  of the source file. Given a cursor it yields the next decoded code point and the
  cursor advanced past it; at the terminator it yields the sentinel \<open>0\<close> and does not
  advance.
\<close>

definition nextchar :: "'u::zero decoder \<Rightarrow> 'u list \<Rightarrow> nat \<Rightarrow> char32 \<times> nat" where
  "nextchar dec buf p =
     (if unit_at buf p = 0 then (0, p)
      else (fst (dec (drop p buf)), p + Suc (snd (dec (drop p buf)))))"

text \<open>The view type \<open>reference_string\<close>; its field \<open>end\<close> is called \<open>finish\<close> here.\<close>

record reference_string =
  start :: nat
  finish :: nat

lemma nextchar_advance:
  "nextchar dec buf p = (c, t) \<Longrightarrow> c \<noteq> 0 \<Longrightarrow> p < t \<and> p < length buf"
  by (auto simp: nextchar_def unit_at_def split: if_splits)

section \<open>nextline\<close>

text \<open>
  The scanning loop of \<open>nextline\<close>, over the variables \<open>line\<close>, \<open>str\<close> and \<open>temp\<close>; the
  result is the returned flag, the line and the caller's cursor \<open>str\<close>.
\<close>

function nextline_loop ::
  "'u::zero decoder \<Rightarrow> 'u list \<Rightarrow> reference_string \<Rightarrow> nat \<Rightarrow> nat \<Rightarrow> bool \<times> reference_string \<times> nat"
where
  "nextline_loop dec buf line str temp =
     (case nextchar dec buf temp of (ch, temp') \<Rightarrow>
        if ch \<noteq> 0 then
          if ch = 13 then
            (case nextchar dec buf temp' of (ch2, temp2) \<Rightarrow>
               if ch2 = 10 then (True, line\<lparr>finish := str\<rparr>, temp2)
               else nextline_loop dec buf line temp' temp')
          else if ch = 10 then (True, line\<lparr>finish := str\<rparr>, temp')
          else nextline_loop dec buf line temp' temp'
        else (True, line\<lparr>finish := str\<rparr>, str))"
  by pat_completeness auto
termination
  by (relation "measure (\<lambda>(dec, buf, line, str, temp). length buf - temp)")
     (auto dest!: nextchar_advance [OF sym])

definition nextline ::
  "'u::zero decoder \<Rightarrow> 'u list \<Rightarrow> reference_string \<Rightarrow> nat \<Rightarrow> bool \<times> reference_string \<times> nat"
where
  "nextline dec buf line str =
     (if unit_at buf str = 0 then (False, line, str)
      else nextline_loop dec buf (line\<lparr>start := str\<rparr>) str str)"

section \<open>findfirst and findfirstof\<close>

text \<open>
  The loop of \<open>findfirst(T *str, char32_t character, size_t strLength)\<close> over \<open>str\<close>,
  \<open>temp\<close> and \<open>strLength\<close>. The pointer difference \<open>temp - str\<close> is converted to
  \<open>size_t\<close> by the subtraction, which wraps.
\<close>

function findfirst_loop ::
  "'u::zero decoder \<Rightarrow> 'u list \<Rightarrow> char32 \<Rightarrow> nat \<Rightarrow> nat \<Rightarrow> size_t \<Rightarrow> nat option"
where
  "findfirst_loop dec buf character str temp strLength =
     (if strLength > 0 then
        (case nextchar dec buf temp of (ch, temp') \<Rightarrow>
           if ch \<noteq> 0 then
             if ch = character then Some str
             else findfirst_loop dec buf character temp' temp'
                    (strLength - (of_nat temp' - of_nat str))
           else None)
      else None)"
  by pat_completeness auto
termination
  by (relation "measure (\<lambda>(dec, buf, character, str, temp, strLength). length buf - temp)")
     (auto dest!: nextchar_advance [OF sym])

definition findfirst ::
  "'u::zero decoder \<Rightarrow> 'u list \<Rightarrow> nat \<Rightarrow> char32 \<Rightarrow> size_t \<Rightarrow> nat option"
where
  "findfirst dec buf str character strLength =
     findfirst_loop dec buf character str str strLength"





text \<open>
  Modelled from the spec: \<open>length\<close>, \<open>getchar\<close> and \<open>compare\<close> are collaborators that
  are not part of the source file. \<open>length\<close> is the code-unit distance from a cursor to
  the terminator; \<open>getchar(str, 0)\<close> decodes the first code point at a cursor;
  \<open>compare\<close> is the ordinal comparison over a bounded code-unit length, of which only
  the test against \<open>0\<close> is used: it is \<open>0\<close> when the two strings agree on their first
  \<open>n\<close> units or up to a common terminator before that, and \<open>1\<close> here otherwise.
\<close>

definition length_str :: "'u::zero list \<Rightarrow> nat \<Rightarrow> size_t" where
  "length_str buf str = of_nat (length (takeWhile (\<lambda>u. u \<noteq> 0) (drop str buf)))"

definition getchar :: "'u::zero decoder \<Rightarrow> 'u list \<Rightarrow> nat \<Rightarrow> char32" where
  "getchar dec buf str = fst (nextchar dec buf str)"

fun compare_units :: "'u::zero list \<Rightarrow> nat \<Rightarrow> 'u list \<Rightarrow> nat \<Rightarrow> nat \<Rightarrow> int" where
  "compare_units buf1 str1 buf2 str2 0 = 0"
| "compare_units buf1 str1 buf2 str2 (Suc n) =
     (if unit_at buf1 str1 \<noteq> unit_at buf2 str2 then 1
      else if unit_at buf1 str1 = 0 then 0
      else compare_units buf1 (Suc str1) buf2 (Suc str2) n)"

definition compare :: "'u::zero list \<Rightarrow> nat \<Rightarrow> 'u list \<Rightarrow> nat \<Rightarrow> size_t \<Rightarrow> int" where
  "compare buf1 str1 buf2 str2 n = compare_units buf1 str1 buf2 str2 (unat n)"

lemma findfirst_loop_Some:
  "findfirst_loop dec buf character str temp strLength = Some q \<Longrightarrow> str = temp \<Longrightarrow>
     str \<le> q \<and> fst (nextchar dec buf q) \<noteq> 0"
proof (induction dec buf character str temp strLength rule: findfirst_loop.induct)
  case (1 dec buf character str temp strLength)
  obtain ch temp' where nc: "nextchar dec buf temp = (ch, temp')"
    by (cases "nextchar dec buf temp")
  from "1.prems" have pos: "strLength > 0" and nz: "ch \<noteq> 0"
    using nc by (auto simp: findfirst_loop.simps [of dec buf character str temp] split: if_splits)
  show ?case
  proof (cases "ch = character")
    case True
    with "1.prems" pos nz nc show ?thesis
      by (simp add: findfirst_loop.simps [of dec buf character str temp])
  next
    case False
    with "1.prems" pos nz nc
    have rec: "findfirst_loop dec buf character temp' temp'
                 (strLength - (of_nat temp' - of_nat str)) = Some q"
      by (simp add: findfirst_loop.simps [of dec buf character str temp])
    from "1.IH" [OF pos nc [symmetric] nz False rec refl] nextchar_advance [OF nc nz] "1.prems"(2)
    show ?thesis by simp
  qed
qed

lemma findfirst_Some:
  "findfirst dec buf str character strLength = Some q \<Longrightarrow>
     str \<le> q \<and> fst (nextchar dec buf q) \<noteq> 0"
  unfolding findfirst_def by (rule findfirst_loop_Some) simp_all

text \<open>
  The loop of \<open>findfirst(const T *str1, const T *str2, size_t str1Length, size_t
  str2Length)\<close>: its condition assigns the result of the character search to \<open>str1\<close>,
  its increment is \<open>nextchar(str1)\<close>. \<open>hay\<close> is the buffer of \<open>str1\<close>, \<open>ndl\<close> that of
  \<open>str2\<close>.
\<close>

function findfirst_str_loop ::
  "'u::zero decoder \<Rightarrow> 'u list \<Rightarrow> 'u list \<Rightarrow> nat \<Rightarrow> nat \<Rightarrow> char32 \<Rightarrow> size_t \<Rightarrow> size_t \<Rightarrow> nat option"
where
  "findfirst_str_loop dec hay ndl str1 str2 first_char str1Length str2Length =
     (case findfirst dec hay str1 first_char str1Length of
        None \<Rightarrow> None
      | Some str1' \<Rightarrow>
          if compare hay str1' ndl str2 str2Length = 0 then Some str1'
          else findfirst_str_loop dec hay ndl (snd (nextchar dec hay str1')) str2 first_char
                 str1Length str2Length)"
  by pat_completeness auto
termination
proof (relation "measure (\<lambda>(dec, hay, ndl, str1, str2, fc, n1, n2). length hay - str1)")
  show "wf (measure (\<lambda>(dec, hay, ndl, str1, str2, fc, n1, n2). length hay - str1))"
    by simp
next
  fix dec :: "'u::zero decoder" and hay ndl :: "'u list" and str1 str2 :: nat
    and first_char :: char32 and str1Length str2Length :: size_t and x2 :: nat
  assume found: "findfirst dec hay str1 first_char str1Length = Some x2"
  obtain c t where nc: "nextchar dec hay x2 = (c, t)"
    by (cases "nextchar dec hay x2")
  from findfirst_Some [OF found] nc have "str1 \<le> x2" "c \<noteq> 0" by simp_all
  with nextchar_advance [OF nc] have "str1 \<le> x2" "x2 < t" "x2 < length hay" by simp_all
  then show "((dec, hay, ndl, snd (nextchar dec hay x2), str2, first_char, str1Length, str2Length),
              (dec, hay, ndl, str1, str2, first_char, str1Length, str2Length))
             \<in> measure (\<lambda>(dec, hay, ndl, str1, str2, fc, n1, n2). length hay - str1)"
    using nc by simp
qed

definition findfirst_str ::
  "'u::zero decoder \<Rightarrow> 'u list \<Rightarrow> 'u list \<Rightarrow> nat \<Rightarrow> nat \<Rightarrow> size_t \<Rightarrow> size_t \<Rightarrow> nat option"
where
  "findfirst_str dec hay ndl str1 str2 str1Length str2Length =
     (if str2Length = 0 \<or> unit_at ndl str2 = 0 then Some str1
      else
        let str2Length' = (if str2Length = - 1 then length_str ndl str2 else str2Length);
            first_char = getchar dec ndl str2
        in findfirst_str_loop dec hay ndl str1 str2 first_char str1Length str2Length')"

text \<open>
  \<open>findfirstof(const T *str, const T *charSet, size_t strLength, size_t setLength)\<close>:
  the inner loop over the character set, then the loop over the source. \<open>setbuf\<close> is the
  buffer of \<open>charSet\<close>. The variable \<open>start_of_ch2\<close> of the source is written and never
  read, and is left out.
\<close>

function findfirstof_set ::
  "'u::zero decoder \<Rightarrow> 'u list \<Rightarrow> char32 \<Rightarrow> nat \<Rightarrow> nat \<Rightarrow> nat \<Rightarrow> size_t \<Rightarrow> bool"
where
  "findfirstof_set dec setbuf ch str temp temp_set temp_length =
     (if temp_length > 0 then
        (case nextchar dec setbuf temp_set of (ch2, temp_set') \<Rightarrow>
           if ch2 \<noteq> 0 then
             if ch2 = ch then True
             else findfirstof_set dec setbuf ch str temp temp_set'
                    (temp_length - (of_nat temp - of_nat str))
           else False)
      else False)"
  by pat_completeness auto
termination
  by (relation "measure (\<lambda>(dec, setbuf, ch, str, temp, temp_set, temp_length). length setbuf - temp_set)")
     (auto dest!: nextchar_advance [OF sym])

function findfirstof_loop ::
  "'u::zero decoder \<Rightarrow> 'u list \<Rightarrow> 'u list \<Rightarrow> nat \<Rightarrow> nat \<Rightarrow> nat \<Rightarrow> size_t \<Rightarrow> size_t \<Rightarrow> nat option"
where
  "findfirstof_loop dec buf setbuf charSet str temp strLength setLength =
     (if strLength > 0 then
        (case nextchar dec buf temp of (ch, temp') \<Rightarrow>
           if ch \<noteq> 0 then
             if findfirstof_set dec setbuf ch str temp' charSet setLength then Some str
             else findfirstof_loop dec buf setbuf charSet temp' temp'
                    (strLength - (of_nat temp' - of_nat str)) setLength
           else None)
      else None)"
  by pat_completeness auto
termination
  by (relation "measure (\<lambda>(dec, buf, setbuf, charSet, str, temp, strLength, setLength). length buf - temp)")
     (auto dest!: nextchar_advance [OF sym])

definition findfirstof ::
  "'u::zero decoder \<Rightarrow> 'u list \<Rightarrow> 'u list \<Rightarrow> nat \<Rightarrow> nat \<Rightarrow> size_t \<Rightarrow> size_t \<Rightarrow> nat option"
where
  "findfirstof dec buf setbuf str charSet strLength setLength =
     findfirstof_loop dec buf setbuf charSet str str strLength setLength"

section \<open>Two encodings\<close>

text \<open>
  The fixed-width encoding, one unit for each code point, and the one- and two-unit
  forms of UTF-8 over bytes (a byte of at least \<open>0x80\<close> leads a two-unit code point).
\<close>

definition wide :: "char32 decoder" where
  "wide us = (unit_at us 0, 0)"

definition utf8 :: "8 word decoder" where
  "utf8 us =
     (if unit_at us 0 < 0x80 then (ucast (unit_at us 0), 0)
      else (push_bit 6 (ucast (unit_at us 0 AND 0x1F)) OR ucast (unit_at us 1 AND 0x3F), 1))"

section \<open>Positions reached by decoding\<close>

text \<open>
  \<open>line_break dec buf p\<close> is the cursor after the line delimiter that starts at \<open>p\<close>, if
  one does: the code point \<open>'\n'\<close>, or \<open>'\r'\<close> with \<open>'\n'\<close> as the next code point.
\<close>

definition line_break :: "'u::zero decoder \<Rightarrow> 'u list \<Rightarrow> nat \<Rightarrow> nat option" where
  "line_break dec buf p =
     (case nextchar dec buf p of (c, t) \<Rightarrow>
        if c = 10 then Some t
        else if c = 13 \<and> fst (nextchar dec buf t) = 10 then Some (snd (nextchar dec buf t))
        else None)"

text \<open>
  \<open>passes dec buf ok p e\<close>: decoding from \<open>p\<close> arrives at \<open>e\<close>, and every code point
  decoded on the way starts at a position that satisfies \<open>ok\<close> and is not the sentinel.
\<close>

inductive passes ::
  "'u::zero decoder \<Rightarrow> 'u list \<Rightarrow> (nat \<Rightarrow> bool) \<Rightarrow> nat \<Rightarrow> nat \<Rightarrow> bool"
  for dec :: "'u::zero decoder" and buf :: "'u list" and ok :: "nat \<Rightarrow> bool"
where
  passes_here: "passes dec buf ok p p"
| passes_step: "ok p \<Longrightarrow> nextchar dec buf p = (c, t) \<Longrightarrow> c \<noteq> 0 \<Longrightarrow> passes dec buf ok t e
     \<Longrightarrow> passes dec buf ok p e"

text \<open>Line content: code points that neither end the buffer nor start a delimiter.\<close>

definition ordinary :: "'u::zero decoder \<Rightarrow> 'u list \<Rightarrow> nat \<Rightarrow> nat \<Rightarrow> bool" where
  "ordinary dec buf p e = passes dec buf (\<lambda>q. line_break dec buf q = None) p e"

text \<open>The code points decoded from a cursor up to the terminator.\<close>

function code_points :: "'u::zero decoder \<Rightarrow> 'u list \<Rightarrow> nat \<Rightarrow> char32 list" where
  "code_points dec buf p =
     (case nextchar dec buf p of (c, t) \<Rightarrow> if c \<noteq> 0 then c # code_points dec buf t else [])"
  by pat_completeness auto
termination
  by (relation "measure (\<lambda>(dec, buf, p). length buf - p)")
     (auto dest!: nextchar_advance [OF sym])

section \<open>Splitting a whole buffer\<close>

text \<open>
  The index of the terminator of a buffer, and the units of a buffer from one index up
  to another.
\<close>

definition terminator :: "'u::zero list \<Rightarrow> nat" where
  "terminator buf = length (takeWhile (\<lambda>u. u \<noteq> 0) buf)"

definition slice :: "'u list \<Rightarrow> nat \<Rightarrow> nat \<Rightarrow> 'u list" where
  "slice buf a b = take (b - a) (drop a buf)"

lemma nextchar_unit:
  "unit_at buf p \<noteq> 0 \<Longrightarrow> nextchar dec buf p = (c, t) \<Longrightarrow> p < t \<and> p < length buf"
  by (auto simp: nextchar_def unit_at_def split: if_splits)

text \<open>
  The buffer is well formed for the decoder from \<open>p\<close> on: up to the terminator, every
  code point decoded is not the sentinel and its units are all before the terminator.
\<close>

function well_formed :: "'u::zero decoder \<Rightarrow> 'u list \<Rightarrow> nat \<Rightarrow> bool" where
  "well_formed dec buf p =
     (if unit_at buf p = 0 then True
      else (case nextchar dec buf p of (c, t) \<Rightarrow>
              c \<noteq> 0 \<and> (\<forall>i\<in>{p..<t}. unit_at buf i \<noteq> 0) \<and> well_formed dec buf t))"
  by pat_completeness auto
termination
  by (relation "measure (\<lambda>(dec, buf, p). length buf - p)")
     (auto dest!: nextchar_unit [OF _ sym])

text \<open>
  A caller's loop \<open>while (nextline(line, str)) ...\<close>, collecting after each call that
  returns true the line and the cursor. \<open>fuel\<close> bounds the number of calls and \<open>None\<close>
  says that it was used up; otherwise the result is the collected list and the
  cursor at which the last call returned false.
\<close>

fun nextlines ::
  "nat \<Rightarrow> 'u::zero decoder \<Rightarrow> 'u list \<Rightarrow> reference_string \<Rightarrow> nat
     \<Rightarrow> ((reference_string \<times> nat) list \<times> nat) option"
where
  "nextlines 0 dec buf line str = None"
| "nextlines (Suc fuel) dec buf line str =
     (case nextline dec buf line str of (ok, line', str') \<Rightarrow>
        if ok then
          (case nextlines fuel dec buf line' str' of
             None \<Rightarrow> None
           | Some (ls, fin) \<Rightarrow> Some ((line', str') # ls, fin))
        else Some ([], str'))"

text \<open>
  The lines and delimiters follow one another from \<open>p\<close> to \<open>e\<close>: each line starts where
  the cursor was, ends at or after its start, and the cursor after it is at or after
  its end.
\<close>

fun contiguous :: "nat \<Rightarrow> (reference_string \<times> nat) list \<Rightarrow> nat \<Rightarrow> bool" where
  "contiguous p [] e = (p = e)"
| "contiguous p ((l, nxt) # ls) e =
     (start l = p \<and> p \<le> finish l \<and> finish l \<le> nxt \<and> contiguous nxt ls e)"

section \<open>Properties of nextline\<close>

declare nextline_loop.simps [simp del]
declare findfirst_loop.simps [simp del]
declare findfirst_str_loop.simps [simp del]
declare findfirstof_set.simps [simp del]
declare findfirstof_loop.simps [simp del]
declare code_points.simps [simp del]
declare well_formed.simps [simp del]

lemma passes_le: "passes dec buf ok p e \<Longrightarrow> p \<le> e"
  by (induction rule: passes.induct) (auto dest: nextchar_advance)

lemma passes_snoc:
  "passes dec buf ok p e \<Longrightarrow> ok e \<Longrightarrow> nextchar dec buf e = (c, t) \<Longrightarrow> c \<noteq> 0
     \<Longrightarrow> passes dec buf ok p t"
  by (induction rule: passes.induct) (auto intro: passes.intros)

lemma nextline_loop_lf:
  "nextchar dec buf e = (10, t) \<Longrightarrow>
     nextline_loop dec buf line e e = (True, line\<lparr>finish := e\<rparr>, t)"
  by (subst nextline_loop.simps) simp

lemma nextline_loop_crlf:
  "nextchar dec buf e = (13, t) \<Longrightarrow> nextchar dec buf t = (10, q) \<Longrightarrow>
     nextline_loop dec buf line e e = (True, line\<lparr>finish := e\<rparr>, q)"
  by (subst nextline_loop.simps) simp

lemma nextline_loop_terminator:
  "fst (nextchar dec buf e) = 0 \<Longrightarrow>
     nextline_loop dec buf line e e = (True, line\<lparr>finish := e\<rparr>, e)"
  by (cases "nextchar dec buf e") (subst nextline_loop.simps, simp)

lemma nextline_loop_content:
  "nextchar dec buf p = (c, t) \<Longrightarrow> c \<noteq> 0 \<Longrightarrow> line_break dec buf p = None \<Longrightarrow>
     nextline_loop dec buf line p p = nextline_loop dec buf line t t"
  by (subst nextline_loop.simps)
     (auto simp: line_break_def split: prod.splits if_splits)

lemma nextline_loop_break:
  "line_break dec buf e = Some q \<Longrightarrow>
     nextline_loop dec buf line e e = (True, line\<lparr>finish := e\<rparr>, q)"
  by (subst nextline_loop.simps)
     (auto simp: line_break_def split: prod.splits if_splits)

lemma nextline_loop_ordinary:
  "passes dec buf (\<lambda>q. line_break dec buf q = None) p e \<Longrightarrow>
     nextline_loop dec buf line p p = nextline_loop dec buf line e e"
  by (induction rule: passes.induct) (simp_all add: nextline_loop_content)

lemma line_break_advance: "line_break dec buf e = Some q \<Longrightarrow> e < q"
proof -
  assume lb: "line_break dec buf e = Some q"
  obtain c t where nc: "nextchar dec buf e = (c, t)"
    by (cases "nextchar dec buf e")
  obtain c2 t2 where nc2: "nextchar dec buf t = (c2, t2)"
    by (cases "nextchar dec buf t")
  from lb nc nc2 have "(c = 10 \<and> q = t) \<or> (c = 13 \<and> c2 = 10 \<and> q = t2)"
    by (auto simp: line_break_def split: if_splits)
  with nextchar_advance [OF nc] nextchar_advance [OF nc2] show ?thesis
    by auto
qed

lemma nextline_loop_result:
  "nextline_loop dec buf line p p = (ok, line', q) \<Longrightarrow>
     ok \<and> start line' = start line \<and> p \<le> finish line' \<and> finish line' \<le> q"
proof (induction "length buf - p" arbitrary: p rule: less_induct)
  case less
  obtain c t where nc: "nextchar dec buf p = (c, t)"
    by (cases "nextchar dec buf p")
  show ?case
  proof (cases "c = 0")
    case True
    with nc less.prems show ?thesis
      by (auto simp: nextline_loop_terminator)
  next
    case nz: False
    show ?thesis
    proof (cases "line_break dec buf p")
      case (Some q')
      with less.prems line_break_advance [OF Some] show ?thesis
        by (auto simp: nextline_loop_break)
    next
      case None
      from nextchar_advance [OF nc nz] have "length buf - t < length buf - p" "p \<le> t"
        by auto
      moreover from less.prems have "nextline_loop dec buf line t t = (ok, line', q)"
        by (simp add: nextline_loop_content [OF nc nz None])
      ultimately show ?thesis
        using less.hyps [of t] by auto
    qed
  qed
qed

text \<open>
  C9: when \<open>nextline\<close> returns false, the line view (both its start and its end) and
  the caller's cursor are what they were on entry.
\<close>

theorem nextline_false_unchanged:
  "\<not> fst (nextline dec buf line str) \<Longrightarrow> nextline dec buf line str = (False, line, str)"
proof -
  assume no_line: "\<not> fst (nextline dec buf line str)"
  have "fst (nextline_loop dec buf (line\<lparr>start := str\<rparr>) str str)"
    using nextline_loop_result [of dec buf "line\<lparr>start := str\<rparr>" str]
    by (cases "nextline_loop dec buf (line\<lparr>start := str\<rparr>) str str") simp
  with no_line show ?thesis
    by (simp add: nextline_def split: if_splits)
qed

theorem nextline_false_unchanged_witness:
  "\<not> fst (nextline wide [97, 10] \<lparr>start = 5, finish = 7\<rparr> 2) \<and>
   nextline wide [97, 10] \<lparr>start = 5, finish = 7\<rparr> 2 = (False, \<lparr>start = 5, finish = 7\<rparr>, 2)"
proof -
  have h: "\<not> fst (nextline wide [97, 10] \<lparr>start = 5, finish = 7\<rparr> 2)"
    by (simp add: nextline_def unit_at_def)
  from h nextline_false_unchanged [OF h] show ?thesis by simp
qed

lemma passes_stepI:
  "ok p \<Longrightarrow> fst (nextchar dec buf p) \<noteq> 0 \<Longrightarrow> passes dec buf ok (snd (nextchar dec buf p)) e
     \<Longrightarrow> passes dec buf ok p e"
  by (cases "nextchar dec buf p") (auto intro: passes_step)

lemma passes_hereI: "p = e \<Longrightarrow> passes dec buf ok p e"
  by (simp add: passes_here)

lemma nextline_loop_ends:
  "\<exists>e. ordinary dec buf p e \<and>
       nextline_loop dec buf line p p = nextline_loop dec buf line e e \<and>
       (fst (nextchar dec buf e) = 0 \<or> line_break dec buf e \<noteq> None)"
proof (induction "length buf - p" arbitrary: p rule: less_induct)
  case less
  obtain c t where nc: "nextchar dec buf p = (c, t)"
    by (cases "nextchar dec buf p")
  show ?case
  proof (cases "c = 0 \<or> line_break dec buf p \<noteq> None")
    case True
    with nc have "ordinary dec buf p p \<and>
        nextline_loop dec buf line p p = nextline_loop dec buf line p p \<and>
        (fst (nextchar dec buf p) = 0 \<or> line_break dec buf p \<noteq> None)"
      by (auto simp: ordinary_def intro: passes_here)
    then show ?thesis ..
  next
    case False
    then have nz: "c \<noteq> 0" and nb: "line_break dec buf p = None"
      by simp_all
    from nextchar_advance [OF nc nz] have "length buf - t < length buf - p"
      by auto
    from less.hyps [OF this] obtain e where
      e: "ordinary dec buf t e"
         "nextline_loop dec buf line t t = nextline_loop dec buf line e e"
         "fst (nextchar dec buf e) = 0 \<or> line_break dec buf e \<noteq> None"
      by blast
    from e(1) nb nc nz have "ordinary dec buf p e"
      unfolding ordinary_def by (auto intro: passes_step)
    moreover have "nextline_loop dec buf line p p = nextline_loop dec buf line e e"
      using e(2) by (simp add: nextline_loop_content [OF nc nz nb])
    ultimately show ?thesis
      using e(3) by blast
  qed
qed

lemma nextline_ordinary:
  "unit_at buf str \<noteq> 0 \<Longrightarrow> ordinary dec buf str e \<Longrightarrow>
     nextline dec buf line str = nextline_loop dec buf (line\<lparr>start := str\<rparr>) e e"
  by (simp add: nextline_def ordinary_def nextline_loop_ordinary)

lemma nextline_ends:
  assumes "unit_at buf str \<noteq> 0"
  shows "\<exists>e q. nextline dec buf line str = (True, line\<lparr>start := str, finish := e\<rparr>, q) \<and>
           ordinary dec buf str e \<and>
           (line_break dec buf e = Some q \<or> fst (nextchar dec buf e) = 0 \<and> q = e)"
proof -
  from nextline_loop_ends [of dec buf str "line\<lparr>start := str\<rparr>"] obtain e where
    e: "ordinary dec buf str e"
       "fst (nextchar dec buf e) = 0 \<or> line_break dec buf e \<noteq> None"
    by blast
  have call: "nextline dec buf line str = nextline_loop dec buf (line\<lparr>start := str\<rparr>) e e"
    using assms e(1) by (rule nextline_ordinary)
  show ?thesis
  proof (cases "line_break dec buf e")
    case None
    with e(2) have "fst (nextchar dec buf e) = 0" by simp
    with call e(1) show ?thesis
      by (auto simp: nextline_loop_terminator)
  next
    case (Some q)
    with call e(1) show ?thesis
      by (auto simp: nextline_loop_break)
  qed
qed

text \<open>
  C4: \<open>nextline\<close> returns false exactly when the cursor is on the terminator. When the
  scan from a cursor \<open>str\<close> that is not on the terminator arrives at the terminator
  \<open>e\<close> through line content only, the call returns the remainder from \<open>str\<close> to \<open>e\<close> as
  the line and leaves the cursor on \<open>e\<close>, where the next call returns false.
\<close>

theorem nextline_terminator:
  "(fst (nextline dec buf line str) \<longleftrightarrow> unit_at buf str \<noteq> 0) \<and>
   (unit_at buf str \<noteq> 0 \<longrightarrow> ordinary dec buf str e \<longrightarrow> unit_at buf e = 0 \<longrightarrow>
      nextline dec buf line str = (True, line\<lparr>start := str, finish := e\<rparr>, e) \<and>
      \<not> fst (nextline dec buf line' e))"
proof (intro conjI impI)
  show "fst (nextline dec buf line str) \<longleftrightarrow> unit_at buf str \<noteq> 0"
    using nextline_ends [of buf str dec line] by (auto simp: nextline_def)
next
  assume "unit_at buf str \<noteq> 0" "ordinary dec buf str e" "unit_at buf e = 0"
  then show "nextline dec buf line str = (True, line\<lparr>start := str, finish := e\<rparr>, e)"
    by (simp add: nextline_ordinary nextline_loop_terminator nextchar_def)
next
  assume "unit_at buf e = 0"
  then show "\<not> fst (nextline dec buf line' e)"
    by (simp add: nextline_def)
qed

theorem nextline_terminator_witness:
  "(fst (nextline wide [97, 98] \<lparr>start = 0, finish = 0\<rparr> 0) \<longleftrightarrow> unit_at [97, 98 :: char32] 0 \<noteq> 0) \<and>
   nextline wide [97, 98] \<lparr>start = 0, finish = 0\<rparr> 0 = (True, \<lparr>start = 0, finish = 2\<rparr>, 2) \<and>
   \<not> fst (nextline wide [97, 98] \<lparr>start = 0, finish = 2\<rparr> 2)"
proof -
  have h1: "unit_at [97, 98 :: char32] 0 \<noteq> 0"
    by (simp add: unit_at_def)
  have h2: "ordinary wide [97, 98] 0 2"
    unfolding ordinary_def
    apply (rule passes_stepI; simp add: line_break_def nextchar_def unit_at_def wide_def)
    apply (rule passes_stepI; simp add: line_break_def nextchar_def unit_at_def wide_def)
    apply (rule passes_hereI)
    apply simp
    done
  have h3: "unit_at [97, 98 :: char32] 2 = 0"
    by (simp add: unit_at_def)
  from h1 h2 h3
    nextline_terminator [of wide "[97, 98]" "\<lparr>start = 0, finish = 0\<rparr>" 0 2 "\<lparr>start = 0, finish = 2\<rparr>"]
  show ?thesis by simp
qed

text \<open>
  C3: where the scan of a call arrives, through line content, at a \<open>'\r'\<close> decoded at
  \<open>e\<close>, a following \<open>'\n'\<close> makes the two one delimiter (the line ends at \<open>e\<close> and the
  cursor is past the \<open>'\n'\<close>), and any other following code point leaves the \<open>'\r'\<close>
  inside the line. No returned line ends at a \<open>'\r'\<close> that is not followed by \<open>'\n'\<close>.
\<close>

theorem nextline_carriage_return:
  "(unit_at buf str \<noteq> 0 \<longrightarrow> ordinary dec buf str e \<longrightarrow> nextchar dec buf e = (13, t) \<longrightarrow>
      (fst (nextchar dec buf t) = 10 \<longrightarrow>
         nextline dec buf line str
           = (True, line\<lparr>start := str, finish := e\<rparr>, snd (nextchar dec buf t))) \<and>
      (fst (nextchar dec buf t) \<noteq> 10 \<longrightarrow>
         ordinary dec buf str t \<and> e < t \<and> t \<le> finish (fst (snd (nextline dec buf line str))))) \<and>
   (unit_at buf str \<noteq> 0 \<longrightarrow>
      fst (nextchar dec buf (finish (fst (snd (nextline dec buf line str))))) = 13 \<longrightarrow>
      fst (nextchar dec buf (snd (nextchar dec buf (finish (fst (snd (nextline dec buf line str))))))) = 10)"
proof (intro conjI impI)
  assume h: "unit_at buf str \<noteq> 0" "ordinary dec buf str e" "nextchar dec buf e = (13, t)"
    and lf: "fst (nextchar dec buf t) = 10"
  from h(3) lf have "line_break dec buf e = Some (snd (nextchar dec buf t))"
    by (simp add: line_break_def)
  with h show "nextline dec buf line str
      = (True, line\<lparr>start := str, finish := e\<rparr>, snd (nextchar dec buf t))"
    by (simp add: nextline_ordinary nextline_loop_break)
next
  assume h: "unit_at buf str \<noteq> 0" "ordinary dec buf str e" "nextchar dec buf e = (13, t)"
    and nlf: "fst (nextchar dec buf t) \<noteq> 10"
  from h(3) nlf have nb: "line_break dec buf e = None"
    by (simp add: line_break_def)
  from h(2) nb h(3) show ord: "ordinary dec buf str t"
    unfolding ordinary_def by (rule passes_snoc) simp
  from nextchar_advance [OF h(3)] show "e < t" by simp
  obtain ok line' q where r: "nextline_loop dec buf (line\<lparr>start := str\<rparr>) t t = (ok, line', q)"
    by (cases "nextline_loop dec buf (line\<lparr>start := str\<rparr>) t t")
  from nextline_loop_result [OF r] nextline_ordinary [OF h(1) ord, of line] r
  show "t \<le> finish (fst (snd (nextline dec buf line str)))"
    by simp
next
  assume h: "unit_at buf str \<noteq> 0"
    and cr: "fst (nextchar dec buf (finish (fst (snd (nextline dec buf line str))))) = 13"
  from nextline_ends [OF h, of dec line] obtain e q where
    r: "nextline dec buf line str = (True, line\<lparr>start := str, finish := e\<rparr>, q)"
       "line_break dec buf e = Some q \<or> fst (nextchar dec buf e) = 0 \<and> q = e"
    by blast
  from r(1) have fin: "finish (fst (snd (nextline dec buf line str))) = e"
    by simp
  from cr r(2) show
    "fst (nextchar dec buf (snd (nextchar dec buf (finish (fst (snd (nextline dec buf line str))))))) = 10"
    unfolding fin by (auto simp: line_break_def split: prod.splits if_splits)
qed

theorem nextline_carriage_return_witness:
  "nextline wide [97, 13, 10, 98] \<lparr>start = 0, finish = 0\<rparr> 0 = (True, \<lparr>start = 0, finish = 1\<rparr>, 3) \<and>
   ordinary wide [97, 13, 98] 0 2 \<and>
   2 \<le> finish (fst (snd (nextline wide [97, 13, 98] \<lparr>start = 0, finish = 0\<rparr> 0)))"
proof -
  have a: "unit_at [97, 13, 10, 98 :: char32] 0 \<noteq> 0" "unit_at [97, 13, 98 :: char32] 0 \<noteq> 0"
    by (simp_all add: unit_at_def)
  have b: "ordinary wide [97, 13, 10, 98] 0 1" "ordinary wide [97, 13, 98] 0 1"
    unfolding ordinary_def
    by (rule passes_stepI; simp add: line_break_def nextchar_def unit_at_def wide_def passes_here)+
  have c: "nextchar wide [97, 13, 10, 98] 1 = (13, 2)" "nextchar wide [97, 13, 98] 1 = (13, 2)"
    by (simp_all add: nextchar_def unit_at_def wide_def)
  have d: "nextchar wide [97, 13, 10, 98] 2 = (10, 3)" "fst (nextchar wide [97, 13, 98] 2) \<noteq> 10"
    by (simp_all add: nextchar_def unit_at_def wide_def)
  from a(1) b(1) c(1) d(1)
    nextline_carriage_return [of "[97, 13, 10, 98]" 0 wide 1 2 "\<lparr>start = 0, finish = 0\<rparr>"]
  have "nextline wide [97, 13, 10, 98] \<lparr>start = 0, finish = 0\<rparr> 0
      = (True, \<lparr>start = 0, finish = 1\<rparr>, 3)"
    by simp
  moreover from a(2) b(2) c(2) d(2)
    nextline_carriage_return [of "[97, 13, 98]" 0 wide 1 2 "\<lparr>start = 0, finish = 0\<rparr>"]
  have "ordinary wide [97, 13, 98] 0 2 \<and>
      2 \<le> finish (fst (snd (nextline wide [97, 13, 98] \<lparr>start = 0, finish = 0\<rparr> 0)))"
    by simp
  ultimately show ?thesis by simp
qed

text \<open>
  The two buffers of the specification: \<open>"a\r\nb"\<close> gives the lines \<open>"a"\<close> and \<open>"b"\<close>,
  \<open>"a\rb"\<close> gives the one line \<open>"a\rb"\<close>.
\<close>

lemma nextline_crlf_example:
  "nextline wide [97, 13, 10, 98] l 0 = (True, \<lparr>start = 0, finish = 1\<rparr>, 3) \<and>
   nextline wide [97, 13, 10, 98] l 3 = (True, \<lparr>start = 3, finish = 4\<rparr>, 4) \<and>
   nextline wide [97, 13, 10, 98] l 4 = (False, l, 4)"
  by (simp add: nextline_def nextline_loop.simps nextchar_def unit_at_def wide_def)

lemma nextline_bare_cr_example:
  "nextline wide [97, 13, 98] l 0 = (True, \<lparr>start = 0, finish = 3\<rparr>, 3) \<and>
   nextline wide [97, 13, 98] l 3 = (False, l, 3)"
  by (simp add: nextline_def nextline_loop.simps nextchar_def unit_at_def wide_def)

section \<open>Properties of the whole split\<close>

lemma unit_at_terminator: "unit_at buf (terminator buf) = 0"
proof (cases "terminator buf < length buf")
  case True
  then have "\<not> (buf ! terminator buf \<noteq> 0)"
    unfolding terminator_def by (rule nth_length_takeWhile)
  with True show ?thesis by (simp add: unit_at_def)
next
  case False
  then show ?thesis by (simp add: unit_at_def)
qed

lemma unit_before_terminator: "i < terminator buf \<Longrightarrow> unit_at buf i \<noteq> 0"
proof -
  assume i: "i < terminator buf"
  then have "takeWhile (\<lambda>u. u \<noteq> 0) buf ! i \<in> set (takeWhile (\<lambda>u. u \<noteq> 0) buf)"
    unfolding terminator_def by (rule nth_mem)
  then have "takeWhile (\<lambda>u. u \<noteq> 0) buf ! i \<noteq> 0"
    by (rule set_takeWhileD [THEN conjunct2])
  moreover from i have "takeWhile (\<lambda>u. u \<noteq> 0) buf ! i = buf ! i"
    unfolding terminator_def by (rule takeWhile_nth)
  moreover from i have "i < length buf"
    unfolding terminator_def using length_takeWhile_le [of "\<lambda>u. u \<noteq> 0" buf] by simp
  ultimately show ?thesis by (simp add: unit_at_def)
qed

lemma terminator_unique: "p \<le> terminator buf \<Longrightarrow> unit_at buf p = 0 \<Longrightarrow> p = terminator buf"
  using unit_before_terminator [of p buf] by (cases "p < terminator buf") simp_all

lemma well_formed_step:
  "well_formed dec buf p \<Longrightarrow> unit_at buf p \<noteq> 0 \<Longrightarrow> nextchar dec buf p = (c, t) \<Longrightarrow>
     c \<noteq> 0 \<and> (\<forall>i\<in>{p..<t}. unit_at buf i \<noteq> 0) \<and> well_formed dec buf t"
  by (subst (asm) well_formed.simps) simp

lemma well_formed_sentinel:
  "well_formed dec buf p \<Longrightarrow> fst (nextchar dec buf p) = 0 \<Longrightarrow> unit_at buf p = 0"
  by (cases "nextchar dec buf p") (auto dest: well_formed_step)

lemma well_formed_nextchar:
  assumes "well_formed dec buf p" and "p \<le> terminator buf"
    and "nextchar dec buf p = (c, t)" and "c \<noteq> 0"
  shows "well_formed dec buf t \<and> t \<le> terminator buf"
proof -
  from assms(3,4) have "unit_at buf p \<noteq> 0"
    by (auto simp: nextchar_def split: if_splits)
  from well_formed_step [OF assms(1) this assms(3)]
  have units: "\<forall>i\<in>{p..<t}. unit_at buf i \<noteq> 0" and wf: "well_formed dec buf t"
    by simp_all
  have "t \<le> terminator buf"
  proof (rule ccontr)
    assume "\<not> t \<le> terminator buf"
    with assms(2) have "terminator buf \<in> {p..<t}" by simp
    with units have "unit_at buf (terminator buf) \<noteq> 0" by blast
    then show False by (simp add: unit_at_terminator)
  qed
  with wf show ?thesis by simp
qed

lemma passes_well_formed:
  "passes dec buf ok p e \<Longrightarrow> well_formed dec buf p \<Longrightarrow> p \<le> terminator buf \<Longrightarrow>
     well_formed dec buf e \<and> e \<le> terminator buf"
proof (induction rule: passes.induct)
  case (passes_here p)
  then show ?case by simp
next
  case (passes_step p c t e)
  from well_formed_nextchar [OF passes_step.prems passes_step.hyps(2,3)] passes_step.IH
  show ?case by simp
qed

lemma line_break_well_formed:
  assumes "line_break dec buf e = Some q" and "well_formed dec buf e" and "e \<le> terminator buf"
  shows "well_formed dec buf q \<and> q \<le> terminator buf"
proof -
  obtain c t where nc: "nextchar dec buf e = (c, t)"
    by (cases "nextchar dec buf e")
  obtain c2 t2 where nc2: "nextchar dec buf t = (c2, t2)"
    by (cases "nextchar dec buf t")
  from assms(1) nc nc2 consider "c = 10" "q = t" | "c = 13" "c2 = 10" "q = t2"
    by (auto simp: line_break_def split: if_splits)
  then show ?thesis
  proof cases
    case 1
    with well_formed_nextchar [OF assms(2,3) nc] show ?thesis by simp
  next
    case 2
    with well_formed_nextchar [OF assms(2,3) nc] have "well_formed dec buf t \<and> t \<le> terminator buf"
      by simp
    then have "well_formed dec buf t2 \<and> t2 \<le> terminator buf"
      using nc2 2(2) by (intro well_formed_nextchar [of dec buf t c2]) simp_all
    with 2 show ?thesis by simp
  qed
qed

lemma slice_append: "a \<le> b \<Longrightarrow> b \<le> c \<Longrightarrow> slice buf a b @ slice buf b c = slice buf a c"
proof -
  assume ab: "a \<le> b" and bc: "b \<le> c"
  then have "c - a = (b - a) + (c - b)" by simp
  then have "take (c - a) (drop a buf) = take (b - a) (drop a buf) @ take (c - b) (drop (b - a) (drop a buf))"
    by (simp only: take_add)
  with ab show ?thesis by (simp add: slice_def)
qed

lemma slice_content: "slice buf 0 (terminator buf) = takeWhile (\<lambda>u. u \<noteq> 0) buf"
  by (simp add: slice_def terminator_def takeWhile_eq_take [symmetric])

lemma nextlines_from:
  "well_formed dec buf p \<Longrightarrow> p \<le> terminator buf \<Longrightarrow> terminator buf - p < fuel \<Longrightarrow>
     \<exists>ls. nextlines fuel dec buf line p = Some (ls, terminator buf) \<and>
          contiguous p ls (terminator buf) \<and>
          concat (map (\<lambda>(l, nxt). slice buf (start l) (finish l) @ slice buf (finish l) nxt) ls)
            = slice buf p (terminator buf) \<and>
          (\<forall>(l, nxt) \<in> set ls. ordinary dec buf (start l) (finish l) \<and>
             (line_break dec buf (finish l) = Some nxt \<or> nxt = finish l \<and> nxt = terminator buf))"
proof (induction fuel arbitrary: p line)
  case 0
  then show ?case by simp
next
  case (Suc fuel)
  show ?case
  proof (cases "unit_at buf p = 0")
    case True
    with Suc.prems(2) have "p = terminator buf" by (intro terminator_unique)
    with True show ?thesis
      by (simp add: nextline_def slice_def)
  next
    case False
    from nextline_ends [OF False, of dec line] obtain e q where
      r: "nextline dec buf line p = (True, line\<lparr>start := p, finish := e\<rparr>, q)"
        and ord: "ordinary dec buf p e"
        and fin: "line_break dec buf e = Some q \<or> fst (nextchar dec buf e) = 0 \<and> q = e"
      by blast
    from ord have pe: "p \<le> e"
      unfolding ordinary_def by (rule passes_le)
    from ord Suc.prems(1,2) have wfe: "well_formed dec buf e" "e \<le> terminator buf"
      unfolding ordinary_def by (auto dest: passes_well_formed)
    have q: "well_formed dec buf q \<and> q \<le> terminator buf \<and> e \<le> q \<and> p < q \<and>
        (line_break dec buf e = Some q \<or> q = e \<and> q = terminator buf)"
    proof (cases "line_break dec buf e")
      case (Some q')
      with fin have lb: "line_break dec buf e = Some q"
        by (auto simp: line_break_def split: prod.splits if_splits)
      from line_break_well_formed [OF lb wfe] line_break_advance [OF lb] pe lb
      show ?thesis by simp
    next
      case None
      with fin have z: "fst (nextchar dec buf e) = 0" and qe: "q = e" by simp_all
      from well_formed_sentinel [OF wfe(1) z] have ue: "unit_at buf e = 0" .
      with wfe(2) have "e = terminator buf" by (intro terminator_unique)
      moreover from ue False pe have "p < e" by (cases "p = e") auto
      ultimately show ?thesis using wfe qe by simp
    qed
    from q have "p < q" "q \<le> terminator buf" by simp_all
    with Suc.prems(3) have "terminator buf - q < fuel" by linarith
    with q Suc.IH [of q "line\<lparr>start := p, finish := e\<rparr>"] obtain ls where
      ls: "nextlines fuel dec buf (line\<lparr>start := p, finish := e\<rparr>) q = Some (ls, terminator buf)"
          "contiguous q ls (terminator buf)"
          "concat (map (\<lambda>(l, nxt). slice buf (start l) (finish l) @ slice buf (finish l) nxt) ls)
            = slice buf q (terminator buf)"
          "\<forall>(l, nxt) \<in> set ls. ordinary dec buf (start l) (finish l) \<and>
             (line_break dec buf (finish l) = Some nxt \<or> nxt = finish l \<and> nxt = terminator buf)"
      by blast
    let ?ls = "(line\<lparr>start := p, finish := e\<rparr>, q) # ls"
    have 1: "nextlines (Suc fuel) dec buf line p = Some (?ls, terminator buf)"
      using r ls(1) by simp
    have 2: "contiguous p ?ls (terminator buf)"
      using pe q ls(2) by simp
    have "slice buf p e @ slice buf e q @ slice buf q (terminator buf) = slice buf p (terminator buf)"
      using pe q by (simp add: slice_append)
    then have 3: "concat (map (\<lambda>(l, nxt). slice buf (start l) (finish l) @ slice buf (finish l) nxt) ?ls)
        = slice buf p (terminator buf)"
      using ls(3) by simp
    have 4: "\<forall>(l, nxt) \<in> set ?ls. ordinary dec buf (start l) (finish l) \<and>
        (line_break dec buf (finish l) = Some nxt \<or> nxt = finish l \<and> nxt = terminator buf)"
      using q ord ls(4) by simp
    from 1 2 3 4 show ?thesis by blast
  qed
qed

text \<open>With the fixed-width encoding every buffer is well formed.\<close>

lemma well_formed_wide: "well_formed wide buf p"
proof (induction "length buf - p" arbitrary: p rule: less_induct)
  case less
  show ?case
  proof (cases "unit_at buf p = 0")
    case True
    then show ?thesis by (subst well_formed.simps) simp
  next
    case False
    then have p: "p < length buf"
      by (auto simp: unit_at_def split: if_splits)
    with False have nc: "nextchar wide buf p = (buf ! p, Suc p)" and nz: "buf ! p \<noteq> 0"
      by (simp_all add: nextchar_def wide_def unit_at_def)
    from p have "well_formed wide buf (Suc p)"
      by (intro less.hyps) simp
    with False nc nz show ?thesis
      by (subst well_formed.simps) simp
  qed
qed

text \<open>
  C1: for a buffer that is well formed for the decoder, calling \<open>nextline\<close> again and
  again from the first unit returns true until the cursor is on the terminator, where
  it returns false; \<open>length buf + 1\<close> calls are enough. The lines and the units consumed
  after each of them follow one another from the first unit to the terminator. Each
  returned view is a line: the code points from its start to its end are line content,
  none of them the terminator, a \<open>'\n'\<close> or a \<open>'\r'\<close> followed by \<open>'\n'\<close>. Each consumed
  delimiter is \<open>'\n'\<close> or \<open>'\r' '\n'\<close> (or nothing, after a last line that ends at the
  terminator), and the lines put together with the delimiters are the units of the
  buffer up to its terminator.
\<close>

theorem nextline_partition:
  assumes "well_formed dec buf 0"
  shows "\<exists>ls. nextlines (Suc (length buf)) dec buf line 0 = Some (ls, terminator buf) \<and>
           contiguous 0 ls (terminator buf) \<and>
           concat (map (\<lambda>(l, nxt). slice buf (start l) (finish l) @ slice buf (finish l) nxt) ls)
             = takeWhile (\<lambda>u. u \<noteq> 0) buf \<and>
           (\<forall>(l, nxt) \<in> set ls. ordinary dec buf (start l) (finish l) \<and>
              (line_break dec buf (finish l) = Some nxt \<or> nxt = finish l \<and> nxt = terminator buf))"
proof -
  have "terminator buf - 0 < Suc (length buf)"
    unfolding terminator_def using length_takeWhile_le [of "\<lambda>u. u \<noteq> 0" buf] by simp
  from nextlines_from [OF assms _ this, of line] show ?thesis
    by (simp add: slice_content)
qed

theorem nextline_partition_witness:
  "\<exists>ls. nextlines (Suc (length [97, 13, 10, 98, 10 :: char32])) wide [97, 13, 10, 98, 10]
          \<lparr>start = 0, finish = 0\<rparr> 0 = Some (ls, terminator [97, 13, 10, 98, 10 :: char32]) \<and>
        contiguous 0 ls (terminator [97, 13, 10, 98, 10 :: char32]) \<and>
        concat (map (\<lambda>(l, nxt). slice [97, 13, 10, 98, 10] (start l) (finish l)
                                  @ slice [97, 13, 10, 98, 10] (finish l) nxt) ls)
          = takeWhile (\<lambda>u. u \<noteq> 0) [97, 13, 10, 98, 10 :: char32] \<and>
        (\<forall>(l, nxt) \<in> set ls. ordinary wide [97, 13, 10, 98, 10] (start l) (finish l) \<and>
           (line_break wide [97, 13, 10, 98, 10] (finish l) = Some nxt \<or>
            nxt = finish l \<and> nxt = terminator [97, 13, 10, 98, 10 :: char32]))"
proof -
  have "well_formed wide [97, 13, 10, 98, 10] 0"
    by code_simp
  then show ?thesis
    by (rule nextline_partition)
qed

text \<open>
  The buffer \<open>"a\r\nb\n"\<close> gives the lines \<open>"a"\<close> and \<open>"b"\<close>, the empty buffer no line,
  and \<open>"\n"\<close> one empty line.
\<close>

lemma nextlines_boundary_examples:
  "nextlines 1 wide [] \<lparr>start = 0, finish = 0\<rparr> 0 = Some ([], 0) \<and>
   nextlines 2 wide [10] \<lparr>start = 0, finish = 0\<rparr> 0 = Some ([(\<lparr>start = 0, finish = 0\<rparr>, 1)], 1)"
  by code_simp


lemma nextlines_example:
  "nextlines 6 wide [97, 13, 10, 98, 10] \<lparr>start = 0, finish = 0\<rparr> 0
     = Some ([(\<lparr>start = 0, finish = 1\<rparr>, 3), (\<lparr>start = 3, finish = 4\<rparr>, 5)], 5)"
  by code_simp

section \<open>Properties of the character search\<close>





lemma budget_step:
  fixes n :: size_t
  assumes "p \<le> t" and "t - p \<le> unat n"
  shows "unat (n - (of_nat t - of_nat p)) = unat n - (t - p)"
proof -
  have d: "(of_nat t - of_nat p :: size_t) = of_nat (t - p)"
    using assms(1) by simp
  have u: "unat (of_nat (t - p) :: size_t) = t - p"
    using assms(2) by (rule le_unat_uoi)
  then have "(of_nat (t - p) :: size_t) \<le> n"
    using assms(2) by (simp add: word_le_nat_alt)
  then show ?thesis
    by (simp add: d unat_sub u)
qed

lemma findfirst_loop_passes:
  "passes dec buf (\<lambda>p. fst (nextchar dec buf p) \<noteq> character) p q \<Longrightarrow> q - p \<le> unat n \<Longrightarrow>
     findfirst_loop dec buf character p p n
       = findfirst_loop dec buf character q q (n - of_nat (q - p))"
proof (induction arbitrary: n rule: passes.induct)
  case (passes_here p)
  show ?case by simp
next
  case (passes_step p c t q)
  from nextchar_advance [OF passes_step.hyps(2,3)] have pt: "p < t" by simp
  from passes_le [OF passes_step.hyps(4)] have tq: "t \<le> q" .
  from pt tq passes_step.prems have le: "t - p \<le> unat n" by simp
  with pt have "0 < unat n" by simp
  then have pos: "n \<noteq> 0" by (simp add: unat_gt_0)
  have un: "unat (n - (of_nat t - of_nat p)) = unat n - (t - p)"
    using pt le by (intro budget_step) simp_all
  have "findfirst_loop dec buf character p p n
      = findfirst_loop dec buf character t t (n - (of_nat t - of_nat p))"
    using passes_step.hyps(1,2,3) pos
    by (subst findfirst_loop.simps) (simp add: word_gt_0)
  also have "\<dots> = findfirst_loop dec buf character q q
      (n - (of_nat t - of_nat p) - of_nat (q - t))"
    using pt tq passes_step.prems by (intro passes_step.IH) (simp add: un)
  also have "n - (of_nat t - of_nat p) - of_nat (q - t) = n - of_nat (q - p)"
    using pt tq by simp
  finally show ?case .
qed

text \<open>
  C2, as the code has it. Let the first code point equal to the target start at \<open>q\<close>,
  that is \<open>q - str\<close> units after the cursor (every code point decoded before it is
  another one). The budget is tested before each decode: with any bound greater than
  \<open>q - str\<close> the leading unit of the match is within budget and the search returns
  \<open>q\<close>, whether or not the rest of its encoding is; with the bound \<open>q - str\<close> the
  search returns the null pointer.
\<close>

theorem findfirst_bound_exact:
  assumes "passes dec buf (\<lambda>p. fst (nextchar dec buf p) \<noteq> character) str q"
    and "fst (nextchar dec buf q) = character" and "character \<noteq> 0"
  shows "(q - str < unat strLength \<longrightarrow> findfirst dec buf str character strLength = Some q) \<and>
         (unat strLength = q - str \<longrightarrow> findfirst dec buf str character strLength = None)"
proof (intro conjI impI)
  assume lt: "q - str < unat strLength"
  from passes_le [OF assms(1)] have le: "str \<le> q" .
  have "unat (strLength - (of_nat q - of_nat str)) = unat strLength - (q - str)"
    using le lt by (intro budget_step) simp_all
  with lt have "unat (strLength - (of_nat q - of_nat str)) \<noteq> 0" by simp
  then have "strLength - of_nat (q - str) \<noteq> 0"
    using le by auto
  then have "findfirst_loop dec buf character q q (strLength - of_nat (q - str)) = Some q"
    using assms(2,3)
    by (subst findfirst_loop.simps) (auto simp: word_gt_0 split: prod.splits)
  with findfirst_loop_passes [OF assms(1), of strLength] lt
  show "findfirst dec buf str character strLength = Some q"
    by (simp add: findfirst_def)
next
  assume eq: "unat strLength = q - str"
  have "strLength - of_nat (q - str) = 0"
    unfolding eq [symmetric] by simp
  then have "findfirst_loop dec buf character q q (strLength - of_nat (q - str)) = None"
    by (subst findfirst_loop.simps) simp
  with findfirst_loop_passes [OF assms(1), of strLength] eq
  show "findfirst dec buf str character strLength = None"
    by (simp add: findfirst_def)
qed

text \<open>
  An instance: the buffer of \<open>'a'\<close> and U+00E9 in UTF-8, searched for U+00E9 (the
  units \<open>0xC3 0xA9\<close> at index 1). The bound 2 covers only the leading unit of the match
  and finds it, the bound 1 does not.
\<close>

theorem findfirst_bound_exact_witness:
  "findfirst utf8 [0x61, 0xC3, 0xA9] 0 0xE9 2 = Some 1 \<and>
   findfirst utf8 [0x61, 0xC3, 0xA9] 0 0xE9 1 = None"
proof -
  have a: "passes utf8 [0x61, 0xC3, 0xA9] (\<lambda>p. fst (nextchar utf8 [0x61, 0xC3, 0xA9] p) \<noteq> 0xE9) 0 1"
    by (rule passes_stepI; simp add: nextchar_def unit_at_def utf8_def passes_here)
  have b: "fst (nextchar utf8 [0x61, 0xC3, 0xA9] 1) = 0xE9"
    by (simp add: nextchar_def unit_at_def utf8_def)
  have c: "(0xE9 :: char32) \<noteq> 0"
    by simp
  from findfirst_bound_exact [OF a b c, of 2] findfirst_bound_exact [OF a b c, of 1]
  show ?thesis by simp
qed

text \<open>
  As the specification states it, C2 fails: with the bound 1 the code point U+00E9
  at the cursor takes two units, so its encoding straddles the bound, and it is still
  reported as the match.
\<close>

theorem findfirst_straddle_counterexample:
  "snd (nextchar utf8 [0xC3, 0xA9] 0) = 2 \<and> findfirst utf8 [0xC3, 0xA9] 0 0xE9 1 = Some 0"
  by (simp add: findfirst_def findfirst_loop.simps nextchar_def unit_at_def utf8_def)

section \<open>Properties of the substring search\<close>

text \<open>
  C8: with an empty needle (a needle bound of zero, or a needle whose first unit is
  the terminator) the substring \<open>findfirst\<close> returns the haystack cursor it was given.
\<close>

theorem findfirst_str_empty_needle:
  "str2Length = 0 \<or> unit_at ndl str2 = 0 \<Longrightarrow>
     findfirst_str dec hay ndl str1 str2 str1Length str2Length = Some str1"
  by (simp add: findfirst_str_def)

theorem findfirst_str_empty_needle_witness:
  "findfirst_str wide [97, 98, 99] [120] 1 0 (- 1) 0 = Some 1 \<and>
   findfirst_str wide [97, 98, 99] [] 2 0 (- 1) (- 1) = Some 2"
proof -
  have a: "(0 :: size_t) = 0 \<or> unit_at [120 :: char32] 0 = 0"
    by simp
  have b: "(- 1 :: size_t) = 0 \<or> unit_at ([] :: char32 list) 0 = 0"
    by (simp add: unit_at_def)
  from findfirst_str_empty_needle [OF a, of wide "[97, 98, 99]" 1 "- 1"]
    findfirst_str_empty_needle [OF b, of wide "[97, 98, 99]" 2 "- 1"]
  show ?thesis by simp
qed

text \<open>
  C5 does not hold of the code. The loop hands the unchanged \<open>str1Length\<close> to every
  character search, from wherever \<open>str1\<close> has advanced to. In the haystack \<open>"aXaY"\<close>
  with the bound 2 and the needle \<open>"aY"\<close>, the candidate at index 0 fails the
  comparison, the second character search runs from index 1 with the bound 2 again,
  and the match at index 2 is returned. The unit at index 2 lies beyond the bound and
  decides the result: with \<open>'b'\<close> there the search returns the null pointer.
\<close>

theorem findfirst_str_bound_restarts:
  "findfirst_str wide [97, 88, 97, 89] [97, 89] 0 0 2 2 = Some 2 \<and>
   findfirst_str wide [97, 88, 98, 89] [97, 89] 0 0 2 2 = None"
  by code_simp

section \<open>Properties of the set search\<close>

lemma code_points_terminator:
  "fst (nextchar dec buf p) = 0 \<Longrightarrow> code_points dec buf p = []"
  by (cases "nextchar dec buf p") (subst code_points.simps, simp)

lemma code_points_step:
  "nextchar dec buf p = (c, t) \<Longrightarrow> c \<noteq> 0 \<Longrightarrow> code_points dec buf p = c # code_points dec buf t"
  by (subst code_points.simps) simp

text \<open>
  The inner loop in closed form: the budget left before the set member of index \<open>i\<close>
  is \<open>temp_length\<close> less \<open>i\<close> times \<open>temp - str\<close>, and the member of index \<open>j\<close> is
  compared when none of the budgets up to its own is zero.
\<close>

lemma findfirstof_set_budget:
  "findfirstof_set dec setbuf ch str temp p n \<longleftrightarrow>
     (\<exists>j < length (code_points dec setbuf p). code_points dec setbuf p ! j = ch \<and>
        (\<forall>i\<le>j. n \<noteq> of_nat i * (of_nat temp - of_nat str)))"
proof (induction dec setbuf ch str temp p n rule: findfirstof_set.induct)
  case (1 dec setbuf ch str temp p n)
  define d :: size_t where "d = of_nat temp - of_nat str"
  obtain c2 t where nc: "nextchar dec setbuf p = (c2, t)"
    by (cases "nextchar dec setbuf p")
  show ?case
  proof (cases "n = 0")
    case True
    then have "\<not> findfirstof_set dec setbuf ch str temp p n"
      by (subst findfirstof_set.simps) simp
    moreover have "\<not> (\<forall>i\<le>j. n \<noteq> of_nat i * (of_nat temp - of_nat str))" for j :: nat
      using True by (auto intro: exI [of _ 0])
    ultimately show ?thesis by blast
  next
    case pos: False
    show ?thesis
    proof (cases "c2 = 0")
      case True
      with nc have "code_points dec setbuf p = []"
        by (simp add: code_points_terminator)
      moreover from True nc have "\<not> findfirstof_set dec setbuf ch str temp p n"
        by (subst findfirstof_set.simps) simp
      ultimately show ?thesis by simp
    next
      case nz: False
      from nc nz have ms: "code_points dec setbuf p = c2 # code_points dec setbuf t"
        by (rule code_points_step)
      show ?thesis
      proof (cases "c2 = ch")
        case True
        with nc nz pos have "findfirstof_set dec setbuf ch str temp p n"
          by (subst findfirstof_set.simps) (simp add: word_gt_0)
        moreover have "0 < length (code_points dec setbuf p) \<and> code_points dec setbuf p ! 0 = ch \<and>
            (\<forall>i\<le>0. n \<noteq> of_nat i * (of_nat temp - of_nat str))"
          using ms True pos by simp
        ultimately show ?thesis by blast
      next
        case False
        from pos have pos': "0 < n" by (simp add: word_gt_0)
        have "findfirstof_set dec setbuf ch str temp p n
            = findfirstof_set dec setbuf ch str temp t (n - d)"
          using nc nz pos False unfolding d_def
          by (subst findfirstof_set.simps) (simp add: word_gt_0)
        also have "\<dots> \<longleftrightarrow> (\<exists>j < length (code_points dec setbuf t).
            code_points dec setbuf t ! j = ch \<and> (\<forall>i\<le>j. n - d \<noteq> of_nat i * d))"
          using "1.IH" [OF pos' nc [symmetric] nz False] unfolding d_def .
        also have "\<dots> \<longleftrightarrow> (\<exists>j < length (code_points dec setbuf p).
            code_points dec setbuf p ! j = ch \<and> (\<forall>i\<le>j. n \<noteq> of_nat i * d))"
        proof
          assume "\<exists>j < length (code_points dec setbuf t).
            code_points dec setbuf t ! j = ch \<and> (\<forall>i\<le>j. n - d \<noteq> of_nat i * d)"
          then obtain j where j: "j < length (code_points dec setbuf t)"
            "code_points dec setbuf t ! j = ch" "\<forall>i\<le>j. n - d \<noteq> of_nat i * d"
            by blast
          have "n \<noteq> of_nat i * d" if "i \<le> Suc j" for i
          proof (cases i)
            case 0
            with pos show ?thesis by simp
          next
            case (Suc i')
            with that j(3) have "n - d \<noteq> of_nat i' * d" by simp
            then show ?thesis
              unfolding Suc by (auto simp: algebra_simps)
          qed
          with j(1,2) ms have "Suc j < length (code_points dec setbuf p) \<and>
              code_points dec setbuf p ! Suc j = ch \<and> (\<forall>i\<le>Suc j. n \<noteq> of_nat i * d)"
            by simp
          then show "\<exists>j < length (code_points dec setbuf p).
            code_points dec setbuf p ! j = ch \<and> (\<forall>i\<le>j. n \<noteq> of_nat i * d)"
            by blast
        next
          assume "\<exists>j < length (code_points dec setbuf p).
            code_points dec setbuf p ! j = ch \<and> (\<forall>i\<le>j. n \<noteq> of_nat i * d)"
          then obtain j where j: "j < length (code_points dec setbuf p)"
            "code_points dec setbuf p ! j = ch" "\<forall>i\<le>j. n \<noteq> of_nat i * d"
            by blast
          from j(2) ms False obtain j' where j': "j = Suc j'"
            by (cases j) auto
          have "n - d \<noteq> of_nat i * d" if "i \<le> j'" for i
          proof -
            from that j' have "Suc i \<le> j" by simp
            with j(3) have "n \<noteq> of_nat (Suc i) * d" by blast
            then show ?thesis by (auto simp: algebra_simps)
          qed
          with j(1,2) ms j' have "j' < length (code_points dec setbuf t) \<and>
              code_points dec setbuf t ! j' = ch \<and> (\<forall>i\<le>j'. n - d \<noteq> of_nat i * d)"
            by simp
          then show "\<exists>j < length (code_points dec setbuf t).
            code_points dec setbuf t ! j = ch \<and> (\<forall>i\<le>j. n - d \<noteq> of_nat i * d)"
            by blast
        qed
        finally show ?thesis unfolding d_def .
      qed
    qed
  qed
qed

text \<open>
  C7: in a step of \<open>findfirstof\<close> that decodes the source code point \<open>ch\<close> from \<open>str\<close>
  to \<open>temp\<close>, the set member of index \<open>j\<close> is compared with \<open>ch\<close> exactly when
  \<open>setLength - i * (temp - str)\<close> is not zero for every \<open>i \<le> j\<close>: each member examined
  takes the source's advance \<open>temp - str\<close> off the set budget, whatever number of
  units the member itself has.
\<close>

theorem findfirstof_set_budget_source_advance:
  assumes "strLength \<noteq> 0" and "nextchar dec buf str = (ch, temp)" and "ch \<noteq> 0"
  shows "findfirstof dec buf setbuf str charSet strLength setLength =
     (if \<exists>j < length (code_points dec setbuf charSet).
           code_points dec setbuf charSet ! j = ch \<and>
           (\<forall>i\<le>j. setLength \<noteq> of_nat i * of_nat (temp - str))
      then Some str
      else findfirstof dec buf setbuf temp charSet (strLength - of_nat (temp - str)) setLength)"
proof -
  from nextchar_advance [OF assms(2,3)] have d: "(of_nat temp - of_nat str :: size_t) = of_nat (temp - str)"
    by simp
  have "findfirstof_loop dec buf setbuf charSet str str strLength setLength =
     (if findfirstof_set dec setbuf ch str temp charSet setLength then Some str
      else findfirstof_loop dec buf setbuf charSet temp temp
             (strLength - (of_nat temp - of_nat str)) setLength)"
    using assms by (subst findfirstof_loop.simps) (simp add: word_gt_0)
  then show ?thesis
    unfolding findfirstof_def findfirstof_set_budget d .
qed

text \<open>
  An instance: the source \<open>"a"\<close> and the set of U+00E9 and \<open>'a'\<close> in UTF-8 with the
  set bound 2, which is the two units of U+00E9. Examining U+00E9 takes the one unit
  of the source's \<open>'a'\<close> off the budget, so the \<open>'a'\<close> after the bound is examined and
  matches.
\<close>

theorem findfirstof_set_budget_source_advance_witness:
  "findfirstof utf8 [0x61] [0xC3, 0xA9, 0x61] 0 0 (- 1) 2 = Some 0"
proof -
  have a: "(- 1 :: size_t) \<noteq> 0"
    by simp
  have b: "nextchar utf8 [0x61] 0 = (0x61, 1)"
    by (simp add: nextchar_def unit_at_def utf8_def)
  have c: "(0x61 :: char32) \<noteq> 0"
    by simp
  have ms: "code_points utf8 [0xC3, 0xA9, 0x61] 0 = [0xE9, 0x61]"
    by (simp add: code_points.simps nextchar_def unit_at_def utf8_def)
  have "1 < length (code_points utf8 [0xC3, 0xA9, 0x61] 0) \<and>
      code_points utf8 [0xC3, 0xA9, 0x61] 0 ! 1 = 0x61 \<and>
      (\<forall>i\<le>1. (2 :: size_t) \<noteq> of_nat i * of_nat (1 - 0))"
    unfolding ms by (auto simp: le_Suc_eq)
  then have "\<exists>j < length (code_points utf8 [0xC3, 0xA9, 0x61] 0).
      code_points utf8 [0xC3, 0xA9, 0x61] 0 ! j = 0x61 \<and>
      (\<forall>i\<le>j. (2 :: size_t) \<noteq> of_nat i * of_nat (1 - 0))"
    by blast
  with findfirstof_set_budget_source_advance [OF a b c, of "[0xC3, 0xA9, 0x61]" 0 2]
  show ?thesis by simp
qed

text \<open>
  C6 does not hold of the code. The source is U+00E9 in UTF-8, the set is \<open>'a'\<close>, \<open>'b'\<close>
  and U+00E9 with the set bound 4, the length of the set in units. The source's code
  point is a member of the set, and \<open>findfirstof\<close> returns the null pointer: each
  member examined takes the two units of the source's code point off the set budget,
  which is zero after \<open>'a'\<close> and \<open>'b'\<close>, so the third member is never compared.
\<close>

theorem findfirstof_bounded_set_misses:
  "length_str [0x61, 0x62, 0xC3, 0xA9 :: 8 word] 0 = 4 \<and>
   fst (nextchar utf8 [0xC3, 0xA9] 0) \<in> set (code_points utf8 [0x61, 0x62, 0xC3, 0xA9] 0) \<and>
   findfirstof utf8 [0xC3, 0xA9] [0x61, 0x62, 0xC3, 0xA9] 0 0 (- 1) 4 = None"
  by (simp add: length_str_def findfirstof_def findfirstof_loop.simps findfirstof_set.simps
      code_points.simps nextchar_def unit_at_def utf8_def)

lemma length_code_points: "length (code_points dec buf p) \<le> length buf - p"
proof (induction dec buf p rule: code_points.induct)
  case (1 dec buf p)
  obtain c t where nc: "nextchar dec buf p = (c, t)"
    by (cases "nextchar dec buf p")
  show ?case
  proof (cases "c = 0")
    case True
    with nc show ?thesis by (simp add: code_points_terminator)
  next
    case False
    from "1.IH" [OF nc [symmetric] False] nextchar_advance [OF nc False]
    show ?thesis
      by (auto simp: code_points_step [OF nc False])
  qed
qed

lemma code_points_nonzero: "c \<in> set (code_points dec buf p) \<Longrightarrow> c \<noteq> 0"
proof (induction dec buf p rule: code_points.induct)
  case (1 dec buf p)
  obtain c' t where nc: "nextchar dec buf p = (c', t)"
    by (cases "nextchar dec buf p")
  show ?case
  proof (cases "c' = 0")
    case True
    with nc "1.prems" show ?thesis by (simp add: code_points_terminator)
  next
    case False
    from "1.prems" have "c = c' \<or> c \<in> set (code_points dec buf t)"
      by (simp add: code_points_step [OF nc False])
    with "1.IH" [OF nc [symmetric] False] False show ?thesis by blast
  qed
qed

lemma size_t_not_max: "k < 2 ^ 64 - 1 \<Longrightarrow> (of_nat k :: size_t) \<noteq> - 1"
proof
  assume k: "k < 2 ^ 64 - 1" and eq: "(of_nat k :: size_t) = - 1"
  from k have "unat (of_nat k :: size_t) = k"
    by (simp add: unat_of_nat take_bit_nat_eq_self)
  moreover have "unat (- 1 :: size_t) = 2 ^ 64 - 1"
    by (simp add: unsigned_minus_1_eq_mask mask_eq_exp_minus_1)
  ultimately show False using eq k by simp
qed

lemma findfirstof_set_unbounded:
  assumes width: "\<And>us. snd (dec us) < w" and size: "length setbuf * w < 2 ^ 64 - 1"
    and nc: "nextchar dec buf p = (ch, t)" and nz: "ch \<noteq> 0"
  shows "findfirstof_set dec setbuf ch p t charSet (- 1)
           \<longleftrightarrow> ch \<in> set (code_points dec setbuf charSet)"
proof -
  from nc nz have t: "t = p + Suc (snd (dec (drop p buf)))"
    by (auto simp: nextchar_def split: if_splits)
  with width [of "drop p buf"] have adv: "t - p \<le> w" by simp
  have d: "(of_nat t - of_nat p :: size_t) = of_nat (t - p)"
    using t by simp
  have budget: "(- 1 :: size_t) \<noteq> of_nat i * of_nat (t - p)"
    if "i < length (code_points dec setbuf charSet)" for i
  proof -
    from that length_code_points [of dec setbuf charSet] have "i \<le> length setbuf" by simp
    from this adv have "i * (t - p) \<le> length setbuf * w"
      by (rule mult_le_mono)
    with size have "i * (t - p) < 2 ^ 64 - 1" by simp
    from size_t_not_max [OF this] show ?thesis
      by (simp add: eq_commute)
  qed
  have "\<forall>i\<le>j. (- 1 :: size_t) \<noteq> of_nat i * of_nat (t - p)"
    if "j < length (code_points dec setbuf charSet)" for j
    using that by (auto intro!: budget)
  then have "findfirstof_set dec setbuf ch p t charSet (- 1) \<longleftrightarrow>
      (\<exists>j < length (code_points dec setbuf charSet). code_points dec setbuf charSet ! j = ch)"
    unfolding findfirstof_set_budget d by blast
  then show ?thesis
    by (simp add: in_set_conv_nth)
qed

lemma passes_weaken:
  "passes dec buf ok p q \<Longrightarrow> (\<And>r. ok r \<Longrightarrow> fst (nextchar dec buf r) \<noteq> 0 \<Longrightarrow> ok' r)
     \<Longrightarrow> passes dec buf ok' p q"
proof (induction rule: passes.induct)
  case (passes_here p)
  show ?case by (rule passes.passes_here)
next
  case (passes_step p c t e)
  from passes_step.hyps(1,2,3) passes_step.prems have "ok' p" by simp
  from this passes_step.hyps(2,3) passes_step.IH [OF passes_step.prems]
  show ?case by (rule passes.passes_step)
qed

lemma findfirstof_loop_passes:
  "passes dec buf
     (\<lambda>p. \<not> findfirstof_set dec setbuf (fst (nextchar dec buf p)) p (snd (nextchar dec buf p))
               charSet setLength) p q
   \<Longrightarrow> q - p \<le> unat n \<Longrightarrow>
     findfirstof_loop dec buf setbuf charSet p p n setLength
       = findfirstof_loop dec buf setbuf charSet q q (n - of_nat (q - p)) setLength"
proof (induction arbitrary: n rule: passes.induct)
  case (passes_here p)
  show ?case by simp
next
  case (passes_step p c t q)
  from nextchar_advance [OF passes_step.hyps(2,3)] have pt: "p < t" by simp
  from passes_le [OF passes_step.hyps(4)] have tq: "t \<le> q" .
  from pt tq passes_step.prems have le: "t - p \<le> unat n" by simp
  with pt have "0 < unat n" by simp
  then have pos: "n \<noteq> 0" by (simp add: unat_gt_0)
  have un: "unat (n - (of_nat t - of_nat p)) = unat n - (t - p)"
    using pt le by (intro budget_step) simp_all
  have "findfirstof_loop dec buf setbuf charSet p p n setLength
      = findfirstof_loop dec buf setbuf charSet t t (n - (of_nat t - of_nat p)) setLength"
    using passes_step.hyps(1,2,3) pos
    by (subst findfirstof_loop.simps) (simp add: word_gt_0)
  also have "\<dots> = findfirstof_loop dec buf setbuf charSet q q
      (n - (of_nat t - of_nat p) - of_nat (q - t)) setLength"
    using pt tq passes_step.prems by (intro passes_step.IH) (simp add: un)
  also have "n - (of_nat t - of_nat p) - of_nat (q - t) = n - of_nat (q - p)"
    using pt tq by simp
  finally show ?case .
qed

text \<open>
  The search for a character set without a bound (\<open>setLength\<close> left at \<open>-1\<close>), an
  encoding of at most \<open>w\<close> units for each code point and a set buffer of fewer than
  \<open>(2^64 - 1) / w\<close> units. Let decoding the source from \<open>str\<close> arrive at \<open>q\<close> over code
  points that are no members of the set. If the code point at \<open>q\<close> is a member and
  starts within the source bound, \<open>findfirstof\<close> returns \<open>q\<close>: the earliest position
  in the source, wherever the member stands in the set. If the source ends at \<open>q\<close>,
  by its terminator or by its bound, the result is the null pointer.
\<close>

lemma findfirstof_earliest:
  assumes width: "\<And>us. snd (dec us) < w" and size: "length setbuf * w < 2 ^ 64 - 1"
    and skip: "passes dec buf
      (\<lambda>p. fst (nextchar dec buf p) \<notin> set (code_points dec setbuf charSet)) str q"
  shows "(fst (nextchar dec buf q) \<in> set (code_points dec setbuf charSet) \<longrightarrow>
            q - str < unat strLength \<longrightarrow>
            findfirstof dec buf setbuf str charSet strLength (- 1) = Some q) \<and>
         (fst (nextchar dec buf q) = 0 \<and> q - str \<le> unat strLength \<or> unat strLength = q - str \<longrightarrow>
            findfirstof dec buf setbuf str charSet strLength (- 1) = None)"
proof -
  obtain ch t where nc: "nextchar dec buf q = (ch, t)"
    by (cases "nextchar dec buf q")
  from passes_le [OF skip] have le: "str \<le> q" .
  have inner: "findfirstof_set dec setbuf (fst (nextchar dec buf r)) r (snd (nextchar dec buf r))
        charSet (- 1) \<longleftrightarrow> fst (nextchar dec buf r) \<in> set (code_points dec setbuf charSet)"
    if "fst (nextchar dec buf r) \<noteq> 0" for r
    using that by (intro findfirstof_set_unbounded [OF width size, where buf = buf and p = r]) simp_all
  from skip have skip': "passes dec buf
      (\<lambda>p. \<not> findfirstof_set dec setbuf (fst (nextchar dec buf p)) p (snd (nextchar dec buf p))
                charSet (- 1)) str q"
    by (rule passes_weaken) (simp add: inner)
  have run: "findfirstof dec buf setbuf str charSet strLength (- 1)
      = findfirstof_loop dec buf setbuf charSet q q (strLength - of_nat (q - str)) (- 1)"
    if "q - str \<le> unat strLength"
    unfolding findfirstof_def using skip' that by (rule findfirstof_loop_passes)
  show ?thesis
  proof (intro conjI impI)
    assume mem: "fst (nextchar dec buf q) \<in> set (code_points dec setbuf charSet)"
      and lt: "q - str < unat strLength"
    from mem have nz: "ch \<noteq> 0"
      using nc code_points_nonzero by fastforce
    have "unat (strLength - (of_nat q - of_nat str)) = unat strLength - (q - str)"
      using le lt by (intro budget_step) simp_all
    with lt have "unat (strLength - (of_nat q - of_nat str)) \<noteq> 0" by simp
    then have pos: "strLength - of_nat (q - str) \<noteq> 0"
      using le by auto
    from mem nc nz inner [of q] have "findfirstof_set dec setbuf ch q t charSet (- 1)"
      by simp
    with nc nz pos
    have "findfirstof_loop dec buf setbuf charSet q q (strLength - of_nat (q - str)) (- 1) = Some q"
      by (subst findfirstof_loop.simps) (simp add: word_gt_0)
    with run lt show "findfirstof dec buf setbuf str charSet strLength (- 1) = Some q"
      by simp
  next
    assume "fst (nextchar dec buf q) = 0 \<and> q - str \<le> unat strLength \<or> unat strLength = q - str"
    then consider "ch = 0" "q - str \<le> unat strLength" | "unat strLength = q - str"
      using nc by auto
    then show "findfirstof dec buf setbuf str charSet strLength (- 1) = None"
    proof cases
      case 1
      from 1(1) nc
      have "findfirstof_loop dec buf setbuf charSet q q (strLength - of_nat (q - str)) (- 1) = None"
        by (subst findfirstof_loop.simps) simp
      with run [OF 1(2)] show ?thesis by simp
    next
      case 2
      have "strLength - of_nat (q - str) = 0"
        unfolding 2 [symmetric] by simp
      then have "findfirstof_loop dec buf setbuf charSet q q (strLength - of_nat (q - str)) (- 1) = None"
        by (subst findfirstof_loop.simps) simp
      with run 2 show ?thesis by simp
    qed
  qed
qed

text \<open>
  The examples of the specification: over \<open>"hello"\<close> the set \<open>"ol"\<close> gives index 2, the first \<open>'l'\<close>, not the
  \<open>'o'\<close> at index 4 that stands first in the set; the set \<open>"xyz"\<close> gives the null
  pointer.
\<close>

lemma findfirstof_earliest_examples:
  "findfirstof wide [104, 101, 108, 108, 111] [111, 108] 0 0 (- 1) (- 1) = Some 2 \<and>
   findfirstof wide [104, 101, 108, 108, 111] [120, 121, 122] 0 0 (- 1) (- 1) = None"
proof -
  have w: "snd (wide us) < 1" for us
    by (simp add: wide_def)
  have s1: "length [111, 108 :: char32] * 1 < 2 ^ 64 - 1"
    and s2: "length [120, 121, 122 :: char32] * 1 < 2 ^ 64 - 1"
    by simp_all
  have ol: "code_points wide [111, 108] 0 = [111, 108]"
    and xyz: "code_points wide [120, 121, 122] 0 = [120, 121, 122]"
    by (simp_all add: code_points.simps nextchar_def unit_at_def wide_def)
  have p1: "passes wide [104, 101, 108, 108, 111]
      (\<lambda>p. fst (nextchar wide [104, 101, 108, 108, 111] p) \<notin> set (code_points wide [111, 108] 0)) 0 2"
    unfolding ol
    apply (rule passes_stepI; simp add: nextchar_def unit_at_def wide_def)
    apply (rule passes_stepI; simp add: nextchar_def unit_at_def wide_def)
    apply (rule passes_hereI)
    apply simp
    done
  have p2: "passes wide [104, 101, 108, 108, 111]
      (\<lambda>p. fst (nextchar wide [104, 101, 108, 108, 111] p) \<notin> set (code_points wide [120, 121, 122] 0)) 0 5"
    unfolding xyz
    apply (rule passes_stepI; simp add: nextchar_def unit_at_def wide_def)
    apply (rule passes_stepI; simp add: nextchar_def unit_at_def wide_def)
    apply (rule passes_stepI; simp add: nextchar_def unit_at_def wide_def)
    apply (rule passes_stepI; simp add: nextchar_def unit_at_def wide_def)
    apply (rule passes_stepI; simp add: nextchar_def unit_at_def wide_def)
    apply (rule passes_hereI)
    apply simp
    done
  have m: "fst (nextchar wide [104, 101, 108, 108, 111] 2) \<in> set (code_points wide [111, 108] 0)"
    unfolding ol by (simp add: nextchar_def unit_at_def wide_def)
  have e: "fst (nextchar wide [104, 101, 108, 108, 111] 5) = 0"
    by (simp add: nextchar_def unit_at_def)
  have b: "2 - 0 < unat (- 1 :: size_t)" "5 - 0 \<le> unat (- 1 :: size_t)"
    by (simp_all add: unsigned_minus_1_eq_mask mask_eq_exp_minus_1)
  from findfirstof_earliest [OF w s1 p1, of "- 1"] m b(1)
  have "findfirstof wide [104, 101, 108, 108, 111] [111, 108] 0 0 (- 1) (- 1) = Some 2"
    by blast
  moreover from findfirstof_earliest [OF w s2 p2, of "- 1"] e b(2)
  have "findfirstof wide [104, 101, 108, 108, 111] [120, 121, 122] 0 0 (- 1) (- 1) = None"
    by blast
  ultimately show ?thesis by simp
qed

end
